theory Spec2Isabelle
  imports Main
begin

section \<open>HotQueue: a message queue on a Redis list\<close>

text \<open>
  The library is one class, \<open>HotQueue\<close>, with a subclass \<open>HotStack\<close> that overrides
  two class attributes. Every method is a call or two to a Redis client and to a
  serializer. Both collaborators live outside the repository, so the development has
  two layers: the Redis list commands the class uses, as Redis documents them, over a
  store that maps a key to a list of byte strings; and the methods of the class,
  translated from \<open>hotqueue.py\<close> line by line over that store.
\<close>

subsection \<open>Values, exceptions and results\<close>

text \<open>
  A Python value is an \<open>'a option\<close>: \<open>None\<close> is Python's \<open>None\<close>, which \<open>get\<close>
  also returns for "no message", and \<open>Some x\<close> is any other object. Raw payloads are
  byte strings.
\<close>

type_synonym bytes = string

datatype exn = KeyboardInterrupt | ResponseError | PicklingError | UnpicklingError

text \<open>
  A call returns a value, raises, or never returns (a blocking pop with no timeout on
  a list that nobody fills).
\<close>

datatype 'a outcome = Returns 'a | Raises exn | Blocks

text \<open>
  The serializer is any object with \<open>dumps\<close> and \<open>loads\<close>; either may raise.
\<close>

record 'a serializer =
  dumps :: "'a option \<Rightarrow> exn + bytes"
  loads :: "bytes \<Rightarrow> exn + 'a option"

subsection \<open>The Redis store\<close>

text \<open>
  Every call the class makes to a collaborator is recorded, in order, next to the
  store, so that a statement can say which calls an operation made.
\<close>

datatype 'a event =
    LLEN string
  | DEL string
  | LPOP string
  | RPOP string
  | BLPOP string int
  | BRPOP string int
  | RPUSH string bytes
  | LPUSH string bytes
  | Dumps "'a option"
  | Loads bytes

record 'a world =
  store :: "string \<rightharpoonup> bytes list"
  trace :: "'a event list"

definition record_call :: "'a event \<Rightarrow> 'a world \<Rightarrow> 'a world" where
  "record_call e w = w\<lparr>trace := trace w @ [e]\<rparr>"

text \<open>
  Redis keeps no empty list: a key whose list loses its last element is removed, and
  an absent key reads as the empty list.
\<close>

definition elems :: "(string \<rightharpoonup> bytes list) \<Rightarrow> string \<Rightarrow> bytes list" where
  "elems s k = (case s k of None \<Rightarrow> [] | Some xs \<Rightarrow> xs)"

definition set_elems :: "(string \<rightharpoonup> bytes list) \<Rightarrow> string \<Rightarrow> bytes list \<Rightarrow> (string \<rightharpoonup> bytes list)" where
  "set_elems s k xs = (if xs = [] then s(k := None) else s(k \<mapsto> xs))"

text \<open>
  The client methods, for one client on a connection that is up. \<open>llen\<close> counts,
  \<open>delete\<close> removes the key and says how many keys it removed, the pushes return
  the new length, the pops return the element or \<open>None\<close>.
\<close>

definition redis_llen :: "string \<Rightarrow> 'a world \<Rightarrow> nat \<times> 'a world" where
  "redis_llen k w = (length (elems (store w) k), record_call (LLEN k) w)"

definition redis_delete :: "string \<Rightarrow> 'a world \<Rightarrow> nat \<times> 'a world" where
  "redis_delete k w =
     ((case store w k of None \<Rightarrow> 0 | Some _ \<Rightarrow> 1),
      record_call (DEL k) (w\<lparr>store := (store w)(k := None)\<rparr>))"

definition redis_rpush :: "string \<Rightarrow> bytes \<Rightarrow> 'a world \<Rightarrow> nat \<times> 'a world" where
  "redis_rpush k v w =
     (let xs = elems (store w) k @ [v]
      in (length xs, record_call (RPUSH k v) (w\<lparr>store := set_elems (store w) k xs\<rparr>)))"

definition redis_lpush :: "string \<Rightarrow> bytes \<Rightarrow> 'a world \<Rightarrow> nat \<times> 'a world" where
  "redis_lpush k v w =
     (let xs = v # elems (store w) k
      in (length xs, record_call (LPUSH k v) (w\<lparr>store := set_elems (store w) k xs\<rparr>)))"

definition pop_head :: "string \<Rightarrow> 'a world \<Rightarrow> bytes option \<times> 'a world" where
  "pop_head k w =
     (case elems (store w) k of
        [] \<Rightarrow> (None, w)
      | x # xs \<Rightarrow> (Some x, w\<lparr>store := set_elems (store w) k xs\<rparr>))"

definition pop_tail :: "string \<Rightarrow> 'a world \<Rightarrow> bytes option \<times> 'a world" where
  "pop_tail k w =
     (case rev (elems (store w) k) of
        [] \<Rightarrow> (None, w)
      | x # xs \<Rightarrow> (Some x, w\<lparr>store := set_elems (store w) k (rev xs)\<rparr>))"

definition redis_lpop :: "string \<Rightarrow> 'a world \<Rightarrow> bytes option \<times> 'a world" where
  "redis_lpop k w = pop_head k (record_call (LPOP k) w)"

definition redis_rpop :: "string \<Rightarrow> 'a world \<Rightarrow> bytes option \<times> 'a world" where
  "redis_rpop k w = pop_tail k (record_call (RPOP k) w)"

text \<open>
  The blocking pops return the pair of the key and the element. Redis rejects a
  negative timeout before it looks at the list; on an empty list the call returns
  \<open>None\<close> once a positive timeout has run out, and with timeout 0 it waits for a
  push that, with one client, never comes.
\<close>

definition block_pop ::
  "(string \<Rightarrow> 'a world \<Rightarrow> bytes option \<times> 'a world) \<Rightarrow> string \<Rightarrow> int \<Rightarrow> 'a world
     \<Rightarrow> (string \<times> bytes) option outcome \<times> 'a world" where
  "block_pop pop k t w =
     (if t < 0 then (Raises ResponseError, w)
      else case pop k w of
             (Some x, w') \<Rightarrow> (Returns (Some (k, x)), w')
           | (None, w') \<Rightarrow> (if t = 0 then Blocks else Returns None, w'))"

definition redis_blpop :: "string \<Rightarrow> int \<Rightarrow> 'a world \<Rightarrow> (string \<times> bytes) option outcome \<times> 'a world" where
  "redis_blpop k t w = block_pop pop_head k t (record_call (BLPOP k t) w)"

definition redis_brpop :: "string \<Rightarrow> int \<Rightarrow> 'a world \<Rightarrow> (string \<times> bytes) option outcome \<times> 'a world" where
  "redis_brpop k t w = block_pop pop_tail k t (record_call (BRPOP k t) w)"

subsection \<open>The class\<close>

text \<open>\<open>key_for_name\<close>: \<^verbatim>\<open>return 'hotqueue:%s' % name\<close>.\<close>

definition key_for_name :: "string \<Rightarrow> string" where
  "key_for_name n = ''hotqueue:'' @ n"

text \<open>
  The two classes differ in the class attributes \<open>redis_block_pop_method\<close> and
  \<open>redis_pop_method\<close>, the names of the client methods that \<open>get\<close> looks up.
\<close>

datatype cls = HotQueue | HotStack

datatype block_pop_method = blpop | brpop

datatype pop_method = lpop | rpop

fun redis_block_pop_method :: "cls \<Rightarrow> block_pop_method" where
  "redis_block_pop_method HotQueue = blpop"
| "redis_block_pop_method HotStack = brpop"

fun redis_pop_method :: "cls \<Rightarrow> pop_method" where
  "redis_pop_method HotQueue = lpop"
| "redis_pop_method HotStack = rpop"

fun getattr_block_pop ::
  "block_pop_method \<Rightarrow> string \<Rightarrow> int \<Rightarrow> 'a world \<Rightarrow> (string \<times> bytes) option outcome \<times> 'a world" where
  "getattr_block_pop blpop = redis_blpop"
| "getattr_block_pop brpop = redis_brpop"

fun getattr_pop :: "pop_method \<Rightarrow> string \<Rightarrow> 'a world \<Rightarrow> bytes option \<times> 'a world" where
  "getattr_pop lpop = redis_lpop"
| "getattr_pop rpop = redis_rpop"

record 'a queue =
  cls :: cls
  name :: string
  serializer :: "'a serializer"

text \<open>\<open>__init__\<close>: the serializer defaults to \<open>pickle\<close>, here a parameter.\<close>

definition init :: "cls \<Rightarrow> 'a serializer \<Rightarrow> string \<Rightarrow> 'a serializer option \<Rightarrow> 'a queue" where
  "init c pickle n ser =
     \<lparr>cls = c, name = n,
      serializer = (case ser of Some s \<Rightarrow> s | None \<Rightarrow> pickle)\<rparr>"

definition key :: "'a queue \<Rightarrow> string" where
  "key q = key_for_name (name q)"

text \<open>\<open>__len__\<close> and \<open>clear\<close>.\<close>

definition len :: "'a queue \<Rightarrow> 'a world \<Rightarrow> nat outcome \<times> 'a world" where
  "len q w = (let (n, w') = redis_llen (key q) w in (Returns n, w'))"

definition clear :: "'a queue \<Rightarrow> 'a world \<Rightarrow> unit outcome \<times> 'a world" where
  "clear q w = (let (_, w') = redis_delete (key q) w in (Returns (), w'))"

text \<open>
  \<open>get\<close>: the blocking branch replaces an unset timeout by 0 and keeps the second
  component of the pair the client returns; then whatever was popped is passed to
  \<open>loads\<close>.
\<close>

definition get :: "'a queue \<Rightarrow> bool \<Rightarrow> int option \<Rightarrow> 'a world \<Rightarrow> 'a option outcome \<times> 'a world" where
  "get q blk tmo w =
     (let (r, w1) =
        (if blk then
           (let t = (case tmo of None \<Rightarrow> 0 | Some t \<Rightarrow> t);
                (r, w') = getattr_block_pop (redis_block_pop_method (cls q)) (key q) t w
            in (map_outcome (map_option snd) r, w'))
         else
           (let (msg, w') = getattr_pop (redis_pop_method (cls q)) (key q) w
            in (Returns msg, w')))
      in case r of
           Returns None \<Rightarrow> (Returns None, w1)
         | Returns (Some raw) \<Rightarrow>
             (case loads (serializer q) raw of
                Inl e \<Rightarrow> (Raises e, record_call (Loads raw) w1)
              | Inr v \<Rightarrow> (Returns v, record_call (Loads raw) w1))
         | Raises e \<Rightarrow> (Raises e, w1)
         | Blocks \<Rightarrow> (Blocks, w1))"

text \<open>\<open>put\<close> and \<open>put_head\<close>: one \<open>dumps\<close> and one push per message, in call order.\<close>

fun put :: "'a queue \<Rightarrow> 'a option list \<Rightarrow> 'a world \<Rightarrow> unit outcome \<times> 'a world" where
  "put q [] w = (Returns (), w)"
| "put q (msg # msgs) w =
     (case dumps (serializer q) msg of
        Inl e \<Rightarrow> (Raises e, record_call (Dumps msg) w)
      | Inr b \<Rightarrow> put q msgs (snd (redis_rpush (key q) b (record_call (Dumps msg) w))))"

fun put_head :: "'a queue \<Rightarrow> 'a option list \<Rightarrow> 'a world \<Rightarrow> unit outcome \<times> 'a world" where
  "put_head q [] w = (Returns (), w)"
| "put_head q (msg # msgs) w =
     (case dumps (serializer q) msg of
        Inl e \<Rightarrow> (Raises e, record_call (Dumps msg) w)
      | Inr b \<Rightarrow> put_head q msgs (snd (redis_lpush (key q) b (record_call (Dumps msg) w))))"

text \<open>
  The keyword arguments of \<open>consume\<close>, which it hands to \<open>get\<close>: a key that is
  absent is \<open>None\<close> here, and \<open>get\<close> then takes its default (\<open>block=False\<close>,
  \<open>timeout=None\<close>).
\<close>

record kwargs =
  kw_block :: "bool option"
  kw_timeout :: "int option"

definition setdefault_block :: "kwargs \<Rightarrow> bool \<Rightarrow> kwargs" where
  "setdefault_block kw b = (case kw_block kw of None \<Rightarrow> kw\<lparr>kw_block := Some b\<rparr> | Some _ \<Rightarrow> kw)"

definition get_kw :: "'a queue \<Rightarrow> kwargs \<Rightarrow> 'a world \<Rightarrow> 'a option outcome \<times> 'a world" where
  "get_kw q kw w = get q (case kw_block kw of None \<Rightarrow> False | Some b \<Rightarrow> b) (kw_timeout kw) w"

subsection \<open>What one call to \<open>get\<close> does\<close>

text \<open>
  The timeout \<open>get\<close> passes on, the client call it makes, and the element that
  call removes: the head of the list for \<open>HotQueue\<close>, its last element for
  \<open>HotStack\<close>.
\<close>

definition timeout_arg :: "int option \<Rightarrow> int" where
  "timeout_arg tmo = (case tmo of None \<Rightarrow> 0 | Some t \<Rightarrow> t)"

definition pop_call :: "cls \<Rightarrow> bool \<Rightarrow> int option \<Rightarrow> string \<Rightarrow> 'a event" where
  "pop_call c blk tmo k =
     (if blk then (case c of HotQueue \<Rightarrow> BLPOP k (timeout_arg tmo) | HotStack \<Rightarrow> BRPOP k (timeout_arg tmo))
      else (case c of HotQueue \<Rightarrow> LPOP k | HotStack \<Rightarrow> RPOP k))"

fun split_end :: "cls \<Rightarrow> bytes list \<Rightarrow> (bytes \<times> bytes list) option" where
  "split_end c [] = None"
| "split_end HotQueue (x # xs) = Some (x, xs)"
| "split_end HotStack (x # xs) = Some (last (x # xs), butlast (x # xs))"

text \<open>
  A caller that makes \<open>n\<close> calls to \<open>get\<close> in a row, and stops at a call that
  raises or never returns.
\<close>

fun get_times ::
  "nat \<Rightarrow> 'a queue \<Rightarrow> bool \<Rightarrow> int option \<Rightarrow> 'a world \<Rightarrow> 'a option outcome list \<times> 'a world" where
  "get_times 0 q blk tmo w = ([], w)"
| "get_times (Suc n) q blk tmo w =
     (let (r, w') = get q blk tmo w
      in case r of
           Returns m \<Rightarrow> (let (rs, w'') = get_times n q blk tmo w' in (r # rs, w''))
         | Raises e \<Rightarrow> ([r], w')
         | Blocks \<Rightarrow> ([r], w'))"

subsection \<open>Reading the record of calls\<close>

text \<open>The calls made between two worlds, and the keys that client calls name.\<close>

definition new_calls :: "'a world \<Rightarrow> 'a world \<Rightarrow> 'a event list" where
  "new_calls w w' = drop (length (trace w)) (trace w')"

fun event_key :: "'a event \<Rightarrow> string option" where
  "event_key (LLEN k) = Some k"
| "event_key (DEL k) = Some k"
| "event_key (LPOP k) = Some k"
| "event_key (RPOP k) = Some k"
| "event_key (BLPOP k t) = Some k"
| "event_key (BRPOP k t) = Some k"
| "event_key (RPUSH k v) = Some k"
| "event_key (LPUSH k v) = Some k"
| "event_key (Dumps v) = None"
| "event_key (Loads b) = None"

definition keys_used :: "'a event list \<Rightarrow> string set" where
  "keys_used es = Option.these (event_key ` set es)"

text \<open>A serializer for strings, for the concrete instances below.\<close>

definition text_serializer :: "string serializer" where
  "text_serializer =
     \<lparr>dumps = (\<lambda>v. case v of None \<Rightarrow> Inl PicklingError | Some s \<Rightarrow> Inr s),
      loads = (\<lambda>b. Inr (Some b))\<rparr>"

definition empty_world :: "'a world" where
  "empty_world = \<lparr>store = Map.empty, trace = []\<rparr>"

definition jobs :: "string queue" where
  "jobs = \<lparr>cls = HotQueue, name = ''jobs'', serializer = text_serializer\<rparr>"

definition jobs_stack :: "string queue" where
  "jobs_stack = \<lparr>cls = HotStack, name = ''jobs'', serializer = text_serializer\<rparr>"

text \<open>
  The payload \<open>dumps\<close> produces for a message, and whether \<open>loads\<close> gives the
  message back from it.
\<close>

definition payload :: "'a serializer \<Rightarrow> 'a option \<Rightarrow> bytes" where
  "payload s m = (case dumps s m of Inl e \<Rightarrow> [] | Inr b \<Rightarrow> b)"

definition round_trips :: "'a serializer \<Rightarrow> 'a option \<Rightarrow> bool" where
  "round_trips s m = (case dumps s m of Inl e \<Rightarrow> False | Inr b \<Rightarrow> loads s b = Inr m)"

text \<open>The list in the order in which the class pops it.\<close>

fun pop_order :: "cls \<Rightarrow> 'b list \<Rightarrow> 'b list" where
  "pop_order HotQueue xs = xs"
| "pop_order HotStack xs = rev xs"

text \<open>How the generator ends after a call to \<open>get\<close> that yields nothing.\<close>

fun ending :: "'a option outcome \<Rightarrow> unit outcome" where
  "ending (Returns m) = Returns ()"
| "ending (Raises e) = (if e = KeyboardInterrupt then Returns () else Raises e)"
| "ending Blocks = Blocks"

lemma elems_set_elems [simp]: "elems (set_elems s k xs) k = xs"
  by (simp add: elems_def set_elems_def)

lemma store_record_call [simp]: "store (record_call e w) = store w"
  by (simp add: record_call_def)

lemma trace_record_call [simp]: "trace (record_call e w) = trace w @ [e]"
  by (simp add: record_call_def)

lemma pop_head_Nil: "elems (store w) k = [] \<Longrightarrow> pop_head k w = (None, w)"
  by (simp add: pop_head_def)

lemma pop_head_Cons:
  "elems (store w) k = x # xs \<Longrightarrow> pop_head k w = (Some x, w\<lparr>store := set_elems (store w) k xs\<rparr>)"
  by (simp add: pop_head_def)

lemma pop_tail_Nil: "elems (store w) k = [] \<Longrightarrow> pop_tail k w = (None, w)"
  by (simp add: pop_tail_def)

lemma pop_tail_snoc:
  "elems (store w) k = xs @ [x] \<Longrightarrow> pop_tail k w = (Some x, w\<lparr>store := set_elems (store w) k xs\<rparr>)"
  by (simp add: pop_tail_def)

lemma split_end_HotStack:
  "split_end HotStack ys = Some (x, rest) \<Longrightarrow> ys = rest @ [x]"
  by (cases ys) (auto split: if_splits simp del: last.simps butlast.simps simp: snoc_eq_iff_butlast)

lemma split_end_HotQueue:
  "split_end HotQueue ys = Some (x, rest) \<Longrightarrow> ys = x # rest"
  by (cases ys) auto

lemma split_end_length:
  "split_end c ys = Some (x, rest) \<Longrightarrow> length ys = Suc (length rest)"
  by (cases c; cases ys) auto

lemma split_end_None: "split_end c ys = None \<longleftrightarrow> ys = []"
  by (cases c; cases ys) auto

text \<open>On an empty list nothing is popped and \<open>loads\<close> is not reached.\<close>

lemma get_empty:
  assumes "elems (store w) (key q) = []"
  shows "get q blk tmo w =
     (if blk then (if timeout_arg tmo < 0 then Raises ResponseError
                   else if timeout_arg tmo = 0 then Blocks else Returns None)
      else Returns None,
      record_call (pop_call (cls q) blk tmo (key q)) w)"
proof (cases "cls q")
  case HotQueue
  with assms show ?thesis
    by (simp add: get_def pop_call_def timeout_arg_def redis_blpop_def redis_lpop_def
        block_pop_def pop_head_Nil)
next
  case HotStack
  with assms show ?thesis
    by (simp add: get_def pop_call_def timeout_arg_def redis_brpop_def redis_rpop_def
        block_pop_def pop_tail_Nil)
qed

lemma get_negative:
  assumes "blk" and "timeout_arg tmo < 0"
  shows "get q blk tmo w = (Raises ResponseError, record_call (pop_call (cls q) blk tmo (key q)) w)"
  using assms
  by (cases "cls q")
     (simp_all add: get_def pop_call_def timeout_arg_def redis_blpop_def redis_brpop_def block_pop_def)

text \<open>On a list with an element, that element is popped and passed to \<open>loads\<close>.\<close>

lemma get_nonempty:
  assumes "split_end (cls q) (elems (store w) (key q)) = Some (x, rest)"
    and "blk \<longrightarrow> 0 \<le> timeout_arg tmo"
  shows "get q blk tmo w =
     (case loads (serializer q) x of Inl e \<Rightarrow> Raises e | Inr v \<Rightarrow> Returns v,
      record_call (Loads x)
        ((record_call (pop_call (cls q) blk tmo (key q)) w)\<lparr>store := set_elems (store w) (key q) rest\<rparr>))"
proof (cases "cls q")
  case HotQueue
  with assms(1) have "elems (store w) (key q) = x # rest"
    by (simp add: split_end_HotQueue)
  with HotQueue assms(2) show ?thesis
    by (cases blk)
       (simp_all add: get_def pop_call_def redis_blpop_def redis_lpop_def Let_def
        block_pop_def pop_head_Cons not_less [symmetric] timeout_arg_def [symmetric] split: sum.splits)
next
  case HotStack
  with assms(1) have "elems (store w) (key q) = rest @ [x]"
    by (simp add: split_end_HotStack)
  with HotStack assms(2) show ?thesis
    by (cases blk)
       (simp_all add: get_def pop_call_def redis_brpop_def redis_rpop_def Let_def
        block_pop_def pop_tail_snoc not_less [symmetric] timeout_arg_def [symmetric] split: sum.splits)
qed

text \<open>The three cases of get, as one case distinction.\<close>

lemma get_cases:
  obtains (empty) "elems (store w) (key q) = []"
  | (negative) "blk" "timeout_arg tmo < 0"
  | (pop) x rest where "split_end (cls q) (elems (store w) (key q)) = Some (x, rest)" "blk \<longrightarrow> 0 \<le> timeout_arg tmo"
proof (cases "split_end (cls q) (elems (store w) (key q))")
  case None
  then show ?thesis using empty by (simp add: split_end_None)
next
  case (Some p)
  then show ?thesis using negative pop [of "fst p" "snd p"]
    by (cases "blk \<and> timeout_arg tmo < 0") auto
qed

lemma get_pops:
  assumes "get q blk tmo w = (Returns (Some m), w')"
  shows "length (elems (store w') (key q)) < length (elems (store w) (key q))"
proof (cases rule: get_cases [where w = w and q = q and blk = blk and tmo = tmo])
  case empty
  with assms show ?thesis by (simp add: get_empty split: if_splits)
next
  case negative
  with assms show ?thesis by (simp add: get_negative)
next
  case (pop x rest)
  from assms have "store w' = set_elems (store w) (key q) rest"
    unfolding get_nonempty [OF pop] by auto
  with split_end_length [OF pop(1)] show ?thesis by simp
qed

subsection \<open>\<open>consume\<close>\<close>

text \<open>
  The generator, run to its end: the messages it yields, how it ends, and the world it
  leaves. \<open>kwargs.setdefault('block', True)\<close>, then one \<open>get\<close> per turn of the
  loop; \<open>None\<close> breaks the loop, a \<open>KeyboardInterrupt\<close> is caught and ends the
  generator like a return (the newline it prints is not modelled), any other exception
  goes to the caller. Every message that \<open>get\<close> returns was popped from the list, so
  the loop ends.
\<close>

function consume_loop ::
  "'a queue \<Rightarrow> kwargs \<Rightarrow> 'a world \<Rightarrow> 'a option list \<times> unit outcome \<times> 'a world" where
  "consume_loop q kw w =
     (let (r, w') = get_kw q kw w
      in case r of
           Returns msg \<Rightarrow>
             (if msg = None then ([], Returns (), w')
              else (let (ys, r', w'') = consume_loop q kw w' in (msg # ys, r', w'')))
         | Raises e \<Rightarrow> (if e = KeyboardInterrupt then ([], Returns (), w') else ([], Raises e, w'))
         | Blocks \<Rightarrow> ([], Blocks, w'))"
  by pat_completeness auto
termination
proof (relation "measure (\<lambda>(q, kw, w). length (elems (store w) (key q)))")
  show "wf (measure (\<lambda>(q :: 'a queue, kw :: kwargs, w :: 'a world). length (elems (store w) (key q))))"
    by simp
next
  fix q :: "'a queue" and kw :: kwargs and w w' :: "'a world" and r :: "'a option outcome" and msg :: "'a option"
    and x :: "'a option outcome \<times> 'a world"
  assume a: "x = get_kw q kw w" "(r, w') = x" "r = Returns msg" "msg \<noteq> None"
  then obtain m where "msg = Some m"
    by (cases msg) simp_all
  with a have "get_kw q kw w = (Returns (Some m), w')"
    by simp
  then have "length (elems (store w') (key q)) < length (elems (store w) (key q))"
    unfolding get_kw_def by (rule get_pops)
  then show "((q, kw, w'), (q, kw, w)) \<in> measure (\<lambda>(q, kw, w). length (elems (store w) (key q)))"
    by simp
qed

definition consume :: "'a queue \<Rightarrow> kwargs \<Rightarrow> 'a world \<Rightarrow> 'a option list \<times> unit outcome \<times> 'a world" where
  "consume q kw w = consume_loop q (setdefault_block kw True) w"

declare consume_loop.simps [simp del]

section \<open>The claims\<close>

lemma new_calls_record_call [simp]: "new_calls w (record_call e w) = [e]"
  by (simp add: new_calls_def)

lemma new_calls_record_call2 [simp]:
  "new_calls w (record_call e2 ((record_call e1 w)\<lparr>store := s\<rparr>)) = [e1, e2]"
  by (simp add: new_calls_def)

lemma pop_call_simps:
  "pop_call HotQueue False tmo k = LPOP k"
  "pop_call HotStack False tmo k = RPOP k"
  "pop_call HotQueue True tmo k = BLPOP k (timeout_arg tmo)"
  "pop_call HotStack True tmo k = BRPOP k (timeout_arg tmo)"
  by (simp_all add: pop_call_def)

text \<open>
  C9: \<open>clear\<close> returns and leaves the key absent, whatever the list held; the length
  read afterwards is 0; a second \<open>clear\<close> returns as well and leaves the store as
  the first did; on an absent key \<open>clear\<close> returns and the store is unchanged; no
  other key is touched.
\<close>

theorem clear_deletes_key:
  "fst (clear q w) = Returns ()
   \<and> store (snd (clear q w)) (key q) = None
   \<and> fst (len q (snd (clear q w))) = Returns 0
   \<and> fst (clear q (snd (clear q w))) = Returns ()
   \<and> store (snd (clear q (snd (clear q w)))) = store (snd (clear q w))
   \<and> (store w (key q) = None \<longrightarrow> store (snd (clear q w)) = store w)
   \<and> (\<forall>k. k \<noteq> key q \<longrightarrow> store (snd (clear q w)) k = store w k)"
  by (auto simp: clear_def len_def redis_delete_def redis_llen_def elems_def)

theorem clear_deletes_key_witness:
  "store (empty_world :: string world) (key jobs) = None
   \<and> ''other'' \<noteq> key jobs
   \<and> store (snd (clear jobs empty_world)) = store (empty_world :: string world)
   \<and> store (snd (clear jobs (empty_world :: string world))) ''other''
       = store (empty_world :: string world) ''other''"
  using clear_deletes_key [of jobs "empty_world :: string world"]
  by (simp add: empty_world_def jobs_def key_def key_for_name_def)

text \<open>
  C6: on an empty list a non-blocking \<open>get\<close> returns \<open>None\<close>, and so does a
  blocking \<open>get\<close> with a positive timeout; neither raises. In both cases the one
  call made is the pop, so \<open>loads\<close> is not called, and the store is as before.
\<close>

theorem get_on_empty_returns_None:
  assumes "elems (store w) (key q) = []"
  shows "fst (get q False tmo w) = Returns None
   \<and> new_calls w (snd (get q False tmo w)) = [case cls q of HotQueue \<Rightarrow> LPOP (key q) | HotStack \<Rightarrow> RPOP (key q)]
   \<and> store (snd (get q False tmo w)) = store w
   \<and> (0 < t \<longrightarrow>
        fst (get q True (Some t) w) = Returns None
      \<and> new_calls w (snd (get q True (Some t) w))
          = [case cls q of HotQueue \<Rightarrow> BLPOP (key q) t | HotStack \<Rightarrow> BRPOP (key q) t]
      \<and> store (snd (get q True (Some t) w)) = store w)"
  by (cases "cls q") (simp_all add: get_empty [OF assms] pop_call_simps timeout_arg_def)

theorem get_on_empty_returns_None_witness:
  "elems (store (empty_world :: string world)) (key jobs) = [] \<and> (0::int) < 5
   \<and> fst (get jobs False None (empty_world :: string world)) = Returns None
   \<and> fst (get jobs True (Some 5) (empty_world :: string world)) = Returns None
   \<and> new_calls empty_world (snd (get jobs True (Some 5) (empty_world :: string world))) = [BLPOP ''hotqueue:jobs'' 5]"
  using get_on_empty_returns_None [where w = "empty_world :: string world" and q = jobs and tmo = None and t = 5]
  by (simp add: empty_world_def elems_def jobs_def key_def key_for_name_def)

text \<open>
  C7: with \<open>block=True\<close>, an unset timeout and a timeout of 0 are the same call. The
  client is called once, with the blocking pop of the class and timeout 0. On an empty
  list that call never returns; on a list with an element, the element at the end the
  class pops from is removed, passed to \<open>loads\<close>, and what \<open>loads\<close> returns
  or raises is what \<open>get\<close> returns or raises.
\<close>

theorem get_block_timeout_unset_or_zero:
  "get q True None w = get q True (Some 0) w
   \<and> (elems (store w) (key q) = [] \<longrightarrow>
        fst (get q True None w) = Blocks
      \<and> new_calls w (snd (get q True None w))
          = [case cls q of HotQueue \<Rightarrow> BLPOP (key q) 0 | HotStack \<Rightarrow> BRPOP (key q) 0])
   \<and> (\<forall>x rest. split_end (cls q) (elems (store w) (key q)) = Some (x, rest) \<longrightarrow>
        fst (get q True None w) = (case loads (serializer q) x of Inl e \<Rightarrow> Raises e | Inr v \<Rightarrow> Returns v)
      \<and> new_calls w (snd (get q True None w))
          = [case cls q of HotQueue \<Rightarrow> BLPOP (key q) 0 | HotStack \<Rightarrow> BRPOP (key q) 0, Loads x]
      \<and> store (snd (get q True None w)) = set_elems (store w) (key q) rest)"
proof (intro conjI impI allI)
  show "get q True None w = get q True (Some 0) w"
    by (simp add: get_def)
next
  assume e: "elems (store w) (key q) = []"
  show "fst (get q True None w) = Blocks"
    by (simp add: get_empty [OF e] timeout_arg_def)
  show "new_calls w (snd (get q True None w))
          = [case cls q of HotQueue \<Rightarrow> BLPOP (key q) 0 | HotStack \<Rightarrow> BRPOP (key q) 0]"
    by (cases "cls q") (simp_all add: get_empty [OF e] timeout_arg_def pop_call_simps)
next
  fix x rest
  assume s: "split_end (cls q) (elems (store w) (key q)) = Some (x, rest)"
  have g: "get q True None w =
     (case loads (serializer q) x of Inl e \<Rightarrow> Raises e | Inr v \<Rightarrow> Returns v,
      record_call (Loads x)
        ((record_call (pop_call (cls q) True None (key q)) w)\<lparr>store := set_elems (store w) (key q) rest\<rparr>))"
    by (rule get_nonempty [OF s]) (simp add: timeout_arg_def)
  show "fst (get q True None w) = (case loads (serializer q) x of Inl e \<Rightarrow> Raises e | Inr v \<Rightarrow> Returns v)"
    by (simp add: g)
  show "new_calls w (snd (get q True None w))
          = [case cls q of HotQueue \<Rightarrow> BLPOP (key q) 0 | HotStack \<Rightarrow> BRPOP (key q) 0, Loads x]"
    by (cases "cls q") (simp_all add: g timeout_arg_def pop_call_simps)
  show "store (snd (get q True None w)) = set_elems (store w) (key q) rest"
    by (simp add: g record_call_def)
qed

theorem get_block_timeout_unset_or_zero_witness:
  "elems (store (empty_world :: string world)) (key jobs) = []
   \<and> fst (get jobs True None (empty_world :: string world)) = Blocks
   \<and> split_end (cls jobs) (elems (store (\<lparr>store = [''hotqueue:jobs'' \<mapsto> [''a'', ''b'']], trace = []\<rparr> :: string world)) (key jobs))
       = Some (''a'', [''b''])
   \<and> fst (get jobs True None \<lparr>store = [''hotqueue:jobs'' \<mapsto> [''a'', ''b'']], trace = []\<rparr>) = Returns (Some ''a'')
   \<and> new_calls \<lparr>store = [''hotqueue:jobs'' \<mapsto> [''a'', ''b'']], trace = []\<rparr>
        (snd (get jobs True None \<lparr>store = [''hotqueue:jobs'' \<mapsto> [''a'', ''b'']], trace = []\<rparr>))
       = [BLPOP ''hotqueue:jobs'' 0, Loads ''a'']"
  using get_block_timeout_unset_or_zero [where q = jobs and w = "empty_world :: string world", THEN conjunct2]
    get_block_timeout_unset_or_zero [where q = jobs and w = "\<lparr>store = [''hotqueue:jobs'' \<mapsto> [''a'', ''b'']], trace = []\<rparr> :: string world", THEN conjunct2]
  by (simp add: empty_world_def elems_def jobs_def key_def key_for_name_def text_serializer_def)

subsection \<open>Pushing\<close>

lemma elems_rpush [simp]:
  "elems (store (snd (redis_rpush k b w))) k = elems (store w) k @ [b]"
  by (simp add: redis_rpush_def Let_def)

lemma elems_lpush [simp]:
  "elems (store (snd (redis_lpush k b w))) k = b # elems (store w) k"
  by (simp add: redis_lpush_def Let_def)

lemma trace_rpush [simp]:
  "trace (snd (redis_rpush k b w)) = trace w @ [RPUSH k b]"
  by (simp add: redis_rpush_def Let_def record_call_def)

lemma trace_lpush [simp]:
  "trace (snd (redis_lpush k b w)) = trace w @ [LPUSH k b]"
  by (simp add: redis_lpush_def Let_def record_call_def)

text \<open>
  While \<open>dumps\<close> succeeds, \<open>put\<close> appends the payloads at the tail in call order
  and goes on with the rest of its arguments.
\<close>

lemma put_prefix:
  assumes "list_all2 (\<lambda>m b. dumps (serializer q) m = Inr b) pre bs"
  shows "\<exists>w'. put q (pre @ ys) w = put q ys w'
           \<and> elems (store w') (key q) = elems (store w) (key q) @ bs"
  using assms
proof (induction pre bs arbitrary: w rule: list_all2_induct)
  case Nil
  show ?case by (rule exI [of _ w]) simp
next
  case (Cons m pre b bs)
  let ?w1 = "snd (redis_rpush (key q) b (record_call (Dumps m) w))"
  from Cons.IH [of ?w1] obtain w' where
    "put q (pre @ ys) ?w1 = put q ys w'"
    "elems (store w') (key q) = elems (store ?w1) (key q) @ bs"
    by blast
  with Cons.hyps(1) show ?case by (intro exI [of _ w']) simp
qed

lemma put_head_prefix:
  assumes "list_all2 (\<lambda>m b. dumps (serializer q) m = Inr b) pre bs"
  shows "\<exists>w'. put_head q (pre @ ys) w = put_head q ys w'
           \<and> elems (store w') (key q) = rev bs @ elems (store w) (key q)"
  using assms
proof (induction pre bs arbitrary: w rule: list_all2_induct)
  case Nil
  show ?case by (rule exI [of _ w]) simp
next
  case (Cons m pre b bs)
  let ?w1 = "snd (redis_lpush (key q) b (record_call (Dumps m) w))"
  from Cons.IH [of ?w1] obtain w' where
    "put_head q (pre @ ys) ?w1 = put_head q ys w'"
    "elems (store w') (key q) = rev bs @ elems (store ?w1) (key q)"
    by blast
  with Cons.hyps(1) show ?case by (intro exI [of _ w']) simp
qed

lemma put_all:
  assumes "list_all2 (\<lambda>m b. dumps (serializer q) m = Inr b) ms bs"
  shows "\<exists>w'. put q ms w = (Returns (), w')
           \<and> elems (store w') (key q) = elems (store w) (key q) @ bs"
  using put_prefix [OF assms, of "[]" w] by simp

lemma put_head_all:
  assumes "list_all2 (\<lambda>m b. dumps (serializer q) m = Inr b) ms bs"
  shows "\<exists>w'. put_head q ms w = (Returns (), w')
           \<and> elems (store w') (key q) = rev bs @ elems (store w) (key q)"
  using put_head_prefix [OF assms, of "[]" w] by simp

text \<open>
  C10: when \<open>dumps\<close> raises on a message, \<open>put\<close> and \<open>put_head\<close> raise the same
  exception, and the payloads of the messages before it are on the list: after the old
  elements in call order for \<open>put\<close>, before them in reverse call order for
  \<open>put_head\<close>. The messages after it are neither serialized nor pushed.
\<close>

theorem put_not_atomic:
  assumes "list_all2 (\<lambda>m b. dumps (serializer q) m = Inr b) pre bs"
    and "dumps (serializer q) m = Inl e"
  shows "fst (put q (pre @ m # post) w) = Raises e
   \<and> elems (store (snd (put q (pre @ m # post) w))) (key q) = elems (store w) (key q) @ bs
   \<and> fst (put_head q (pre @ m # post) w) = Raises e
   \<and> elems (store (snd (put_head q (pre @ m # post) w))) (key q) = rev bs @ elems (store w) (key q)"
proof -
  from put_prefix [OF assms(1), of "m # post" w] obtain w1 where
    "put q (pre @ m # post) w = put q (m # post) w1"
    "elems (store w1) (key q) = elems (store w) (key q) @ bs"
    by blast
  moreover
  from put_head_prefix [OF assms(1), of "m # post" w] obtain w2 where
    "put_head q (pre @ m # post) w = put_head q (m # post) w2"
    "elems (store w2) (key q) = rev bs @ elems (store w) (key q)"
    by blast
  ultimately show ?thesis
    using assms(2) by simp
qed

theorem put_not_atomic_witness:
  "list_all2 (\<lambda>m b. dumps (serializer jobs) m = Inr b) [Some ''a'', Some ''b''] [''a'', ''b'']
   \<and> dumps (serializer jobs) None = Inl PicklingError
   \<and> fst (put jobs [Some ''a'', Some ''b'', None, Some ''c''] empty_world) = Raises PicklingError
   \<and> elems (store (snd (put jobs [Some ''a'', Some ''b'', None, Some ''c''] empty_world))) (key jobs) = [''a'', ''b'']
   \<and> fst (put_head jobs [Some ''a'', Some ''b'', None, Some ''c''] empty_world) = Raises PicklingError
   \<and> elems (store (snd (put_head jobs [Some ''a'', Some ''b'', None, Some ''c''] empty_world))) (key jobs) = [''b'', ''a'']"
  using put_not_atomic [where q = jobs and pre = "[Some ''a'', Some ''b'']" and bs = "[''a'', ''b'']"
      and m = None and e = PicklingError and post = "[Some ''c'']" and w = "empty_world :: string world"]
  by (simp add: jobs_def text_serializer_def empty_world_def elems_def)

subsection \<open>Popping\<close>

lemmas eval_defs =
  jobs_def jobs_stack_def text_serializer_def empty_world_def elems_def set_elems_def
  key_def key_for_name_def record_call_def get_def len_def clear_def
  redis_llen_def redis_delete_def redis_rpush_def redis_lpush_def redis_lpop_def redis_rpop_def
  redis_blpop_def redis_brpop_def block_pop_def pop_head_def pop_tail_def
  round_trips_def payload_def timeout_arg_def new_calls_def Let_def

lemma round_trips_dumps:
  "list_all (round_trips s) ms \<Longrightarrow> list_all2 (\<lambda>m b. dumps s m = Inr b) ms (map (payload s) ms)"
  by (induction ms) (auto simp: round_trips_def payload_def split: sum.splits)

lemma round_trips_loads:
  "list_all (round_trips s) ms \<Longrightarrow> list_all2 (\<lambda>b m. loads s b = Inr m) (map (payload s) ms) ms"
  by (induction ms) (auto simp: round_trips_def payload_def split: sum.splits)

lemma pop_order_idem [simp]: "pop_order c (pop_order c xs) = xs"
  by (cases c) simp_all

lemma length_pop_order [simp]: "length (pop_order c xs) = length xs"
  by (cases c) simp_all

lemma split_end_pop_order:
  "pop_order c ys = b # bs \<Longrightarrow> split_end c ys = Some (b, pop_order c bs)"
proof (cases c)
  case HotQueue
  assume "pop_order c ys = b # bs"
  with HotQueue show ?thesis by simp
next
  case HotStack
  assume "pop_order c ys = b # bs"
  with HotStack have "ys = rev bs @ [b]"
    by (simp add: rev_swap)
  with HotStack show ?thesis
    by (cases "rev bs") simp_all
qed

text \<open>
  \<open>n\<close> calls on a list that holds at least \<open>n\<close> payloads which \<open>loads\<close> accepts:
  each call returns the next message in the pop order of the class, and the rest of the
  list stays.
\<close>

lemma get_times_pops:
  assumes "pop_order (cls q) (elems (store w) (key q)) = bs @ rest"
    and "list_all2 (\<lambda>b m. loads (serializer q) b = Inr m) bs ms"
    and "n \<le> length bs"
    and "blk \<longrightarrow> 0 \<le> timeout_arg tmo"
  shows "\<exists>w'. get_times n q blk tmo w = (map Returns (take n ms), w')
           \<and> pop_order (cls q) (elems (store w') (key q)) = drop n bs @ rest"
  using assms(1-3)
proof (induction n arbitrary: w bs ms)
  case 0
  show ?case by (rule exI [of _ w]) (simp add: "0.prems"(1))
next
  case (Suc n)
  from Suc.prems(2,3) obtain b bs' m ms' where
    bs: "bs = b # bs'" and ms: "ms = m # ms'" and l: "loads (serializer q) b = Inr m"
    and tl: "list_all2 (\<lambda>b m. loads (serializer q) b = Inr m) bs' ms'"
    by (cases bs; cases ms) auto
  let ?w1 = "record_call (Loads b)
        ((record_call (pop_call (cls q) blk tmo (key q)) w)\<lparr>store := set_elems (store w) (key q) (pop_order (cls q) (bs' @ rest))\<rparr>)"
  have "split_end (cls q) (elems (store w) (key q)) = Some (b, pop_order (cls q) (bs' @ rest))"
    using Suc.prems(1) bs by (simp add: split_end_pop_order)
  from get_nonempty [OF this assms(4)] l
  have g: "get q blk tmo w = (Returns m, ?w1)"
    by simp
  have "pop_order (cls q) (elems (store ?w1) (key q)) = bs' @ rest"
    by simp
  from Suc.IH [OF this tl] Suc.prems(3) bs obtain w' where
    "get_times n q blk tmo ?w1 = (map Returns (take n ms'), w')"
    "pop_order (cls q) (elems (store w') (key q)) = drop n bs' @ rest"
    by auto
  with g bs ms show ?case
    by (intro exI [of _ w']) simp
qed

text \<open>
  C1: on a \<open>HotQueue\<close> whose list is empty, for messages that the serializer round
  trips, \<open>put\<close> of the messages returns and leaves their payloads on the list in
  call order, and as many non-blocking \<open>get\<close> calls as there are messages return
  them in the order they were given.
\<close>

theorem fifo_put_then_get:
  assumes "cls q = HotQueue"
    and "elems (store w) (key q) = []"
    and "list_all (round_trips (serializer q)) M"
  shows "fst (put q M w) = Returns ()
   \<and> elems (store (snd (put q M w))) (key q) = map (payload (serializer q)) M
   \<and> fst (get_times (length M) q False None (snd (put q M w))) = map Returns M"
proof -
  from put_all [OF round_trips_dumps [OF assms(3)], of w] assms(2) obtain w1 where
    p: "put q M w = (Returns (), w1)"
    and e: "elems (store w1) (key q) = map (payload (serializer q)) M"
    by auto
  from e assms(1) have "pop_order (cls q) (elems (store w1) (key q)) = map (payload (serializer q)) M @ []"
    by simp
  from get_times_pops [OF this round_trips_loads [OF assms(3)], of "length M" False None]
  show ?thesis
    by (auto simp: p e)
qed

theorem fifo_put_then_get_witness:
  "cls jobs = HotQueue \<and> elems (store (empty_world :: string world)) (key jobs) = []
   \<and> list_all (round_trips (serializer jobs)) [Some ''a'', Some ''b'', Some ''c'']
   \<and> fst (get_times (length [Some ''a'', Some ''b'', Some ''c'']) jobs False None
         (snd (put jobs [Some ''a'', Some ''b'', Some ''c''] empty_world)))
       = [Returns (Some ''a''), Returns (Some ''b''), Returns (Some ''c'')]"
  using fifo_put_then_get [where q = jobs and w = "empty_world :: string world"
      and M = "[Some ''a'', Some ''b'', Some ''c'']"]
  by (simp add: jobs_def text_serializer_def empty_world_def elems_def round_trips_def)

text \<open>
  C2: on a \<open>HotStack\<close> whose list is empty, for messages that the serializer round
  trips, \<open>put\<close> leaves their payloads on the list in call order (each pushed at the
  tail), and as many \<open>get\<close> calls as there are messages, non-blocking or blocking
  with a timeout that is unset or not negative, return the messages in reverse order;
  after \<open>n\<close> of these calls the list is what \<open>put\<close> left without its last \<open>n\<close>
  payloads (each popped at the tail).
\<close>

theorem lifo_put_then_get:
  assumes "cls q = HotStack"
    and "elems (store w) (key q) = []"
    and "list_all (round_trips (serializer q)) M"
    and "blk \<longrightarrow> 0 \<le> timeout_arg tmo"
  shows "fst (put q M w) = Returns ()
   \<and> elems (store (snd (put q M w))) (key q) = map (payload (serializer q)) M
   \<and> fst (get_times (length M) q blk tmo (snd (put q M w))) = map Returns (rev M)
   \<and> (\<forall>n \<le> length M.
        elems (store (snd (get_times n q blk tmo (snd (put q M w))))) (key q)
          = take (length M - n) (map (payload (serializer q)) M))"
proof -
  let ?bs = "map (payload (serializer q)) M"
  from put_all [OF round_trips_dumps [OF assms(3)], of w] assms(2) obtain w1 where
    p: "put q M w = (Returns (), w1)"
    and e: "elems (store w1) (key q) = ?bs"
    by auto
  from e assms(1) have po: "pop_order (cls q) (elems (store w1) (key q)) = rev ?bs @ []"
    by simp
  from round_trips_loads [OF assms(3)]
  have l: "list_all2 (\<lambda>b m. loads (serializer q) b = Inr m) (rev ?bs) (rev M)"
    by (simp only: list_all2_rev)
  have n: "elems (store (snd (get_times n q blk tmo w1))) (key q) = take (length M - n) ?bs"
    if "n \<le> length M" for n
  proof -
    from get_times_pops [OF po l _ assms(4), of n] that obtain w' where
      "get_times n q blk tmo w1 = (map Returns (take n (rev M)), w')"
      "pop_order (cls q) (elems (store w') (key q)) = drop n (rev ?bs)"
      by auto
    with assms(1) show ?thesis
      by (simp add: rev_swap rev_drop)
  qed
  from get_times_pops [OF po l _ assms(4), of "length M"]
  have "fst (get_times (length M) q blk tmo w1) = map Returns (rev M)"
    by auto
  with p e n show ?thesis
    by simp
qed

theorem lifo_put_then_get_witness:
  "cls jobs_stack = HotStack \<and> elems (store (empty_world :: string world)) (key jobs_stack) = []
   \<and> list_all (round_trips (serializer jobs_stack)) [Some ''a'', Some ''b'', Some ''c'']
   \<and> 0 \<le> timeout_arg None \<and> (1::nat) \<le> length [Some ''a'', Some ''b'', Some ''c'']
   \<and> fst (get_times (length [Some ''a'', Some ''b'', Some ''c'']) jobs_stack True None
         (snd (put jobs_stack [Some ''a'', Some ''b'', Some ''c''] empty_world)))
       = [Returns (Some ''c''), Returns (Some ''b''), Returns (Some ''a'')]
   \<and> elems (store (snd (get_times 1 jobs_stack True None
         (snd (put jobs_stack [Some ''a'', Some ''b'', Some ''c''] empty_world))))) (key jobs_stack)
       = [''a'', ''b'']"
  using lifo_put_then_get [where q = jobs_stack and w = "empty_world :: string world"
      and M = "[Some ''a'', Some ''b'', Some ''c'']" and blk = True and tmo = None]
  by (simp add: eval_defs)

text \<open>
  C8: on a \<open>HotQueue\<close>, for messages that the serializer round trips, \<open>put_head\<close>
  leaves their payloads in front of what the list held, in reverse call order, and as
  many non-blocking \<open>get\<close> calls as there are messages return them last argument
  first: \<open>put_head(x, y)\<close>, then \<open>y\<close>, then \<open>x\<close>.
\<close>

theorem put_head_reverses:
  assumes "cls q = HotQueue"
    and "list_all (round_trips (serializer q)) M"
  shows "fst (put_head q M w) = Returns ()
   \<and> elems (store (snd (put_head q M w))) (key q)
       = rev (map (payload (serializer q)) M) @ elems (store w) (key q)
   \<and> fst (get_times (length M) q False None (snd (put_head q M w))) = map Returns (rev M)"
proof -
  let ?bs = "map (payload (serializer q)) M"
  from put_head_all [OF round_trips_dumps [OF assms(2)], of w] obtain w1 where
    p: "put_head q M w = (Returns (), w1)"
    and e: "elems (store w1) (key q) = rev ?bs @ elems (store w) (key q)"
    by auto
  from e assms(1)
  have po: "pop_order (cls q) (elems (store w1) (key q)) = rev ?bs @ elems (store w) (key q)"
    by simp
  from round_trips_loads [OF assms(2)]
  have l: "list_all2 (\<lambda>b m. loads (serializer q) b = Inr m) (rev ?bs) (rev M)"
    by (simp only: list_all2_rev)
  from get_times_pops [OF po l, of "length M" False None]
  have "fst (get_times (length M) q False None w1) = map Returns (rev M)"
    by auto
  with p e show ?thesis
    by simp
qed

theorem put_head_reverses_witness:
  "cls jobs = HotQueue \<and> list_all (round_trips (serializer jobs)) [Some ''x'', Some ''y'']
   \<and> fst (put_head jobs [Some ''x'', Some ''y''] empty_world) = Returns ()
   \<and> fst (get_times 2 jobs False None (snd (put_head jobs [Some ''x'', Some ''y''] empty_world)))
       = [Returns (Some ''y''), Returns (Some ''x'')]"
  using put_head_reverses [where q = jobs and w = "empty_world :: string world"
      and M = "[Some ''x'', Some ''y'']"]
  by (simp add: jobs_def text_serializer_def round_trips_def numeral_2_eq_2)

subsection \<open>Counting\<close>

lemma put_length:
  "fst (put q M w) = Returns () \<Longrightarrow>
     length (elems (store (snd (put q M w))) (key q)) = length (elems (store w) (key q)) + length M"
proof (induction M arbitrary: w)
  case Nil
  then show ?case by simp
next
  case (Cons m M)
  then show ?case
    by (cases "dumps (serializer q) m") simp_all
qed

lemma get_times_length:
  assumes "fst (get_times (length ms) q blk tmo w) = map Returns ms"
    and "length ms \<le> length (elems (store w) (key q))"
  shows "length (elems (store (snd (get_times (length ms) q blk tmo w))) (key q))
           = length (elems (store w) (key q)) - length ms"
  using assms
proof (induction ms arbitrary: w)
  case Nil
  then show ?case by simp
next
  case (Cons m ms)
  show ?case
  proof (cases rule: get_cases [where w = w and q = q and blk = blk and tmo = tmo])
    case empty
    with Cons.prems(2) show ?thesis by simp
  next
    case negative
    with Cons.prems(1) show ?thesis by (simp add: get_negative)
  next
    case (pop x rest)
    let ?w1 = "record_call (Loads x)
        ((record_call (pop_call (cls q) blk tmo (key q)) w)\<lparr>store := set_elems (store w) (key q) rest\<rparr>)"
    from Cons.prems(1) have g: "get q blk tmo w = (Returns m, ?w1)"
      unfolding get_times.simps length_Cons get_nonempty [OF pop]
      by (cases "loads (serializer q) x") (simp_all split: prod.splits)
    from split_end_length [OF pop(1)]
    have len: "length (elems (store w) (key q)) = Suc (length (elems (store ?w1) (key q)))"
      by simp
    from Cons.prems(1) have "fst (get_times (length ms) q blk tmo ?w1) = map Returns ms"
      by (simp add: g split: prod.splits)
    moreover from Cons.prems(2) len have "length ms \<le> length (elems (store ?w1) (key q))"
      by simp
    ultimately have "length (elems (store (snd (get_times (length ms) q blk tmo ?w1))) (key q))
           = length (elems (store ?w1) (key q)) - length ms"
      by (rule Cons.IH)
    with len show ?thesis
      by (auto simp: g split: prod.splits)
  qed
qed

text \<open>
  C3: for either class, from an empty list, after a \<open>put\<close> of \<open>k\<close> messages that
  returns and \<open>j \<le> k\<close> calls to \<open>get\<close> that all return, the length read is
  \<open>k - j\<close>; and reading the length of any list leaves the store as it is.
\<close>

theorem len_after_put_and_get:
  assumes "elems (store w) (key q) = []"
    and "fst (put q M w) = Returns ()"
    and "fst (get_times (length ms) q blk tmo (snd (put q M w))) = map Returns ms"
    and "length ms \<le> length M"
  shows "fst (len q (snd (get_times (length ms) q blk tmo (snd (put q M w)))))
           = Returns (length M - length ms)
   \<and> (\<forall>w'. store (snd (len q w')) = store w')"
proof -
  from put_length [OF assms(2)] assms(1)
  have k: "length (elems (store (snd (put q M w))) (key q)) = length M"
    by simp
  with assms(4) have "length ms \<le> length (elems (store (snd (put q M w))) (key q))"
    by simp
  from get_times_length [OF assms(3) this] k
  show ?thesis
    by (simp add: len_def redis_llen_def)
qed

theorem len_after_put_and_get_witness:
  "elems (store (empty_world :: string world)) (key jobs) = []
   \<and> fst (put jobs [Some ''a'', Some ''b'', Some ''c''] empty_world) = Returns ()
   \<and> fst (get_times (length [Some ''a'', Some ''b'']) jobs False None
         (snd (put jobs [Some ''a'', Some ''b'', Some ''c''] empty_world)))
       = map Returns [Some ''a'', Some ''b'']
   \<and> length [Some ''a'', Some ''b''] \<le> length [Some ''a'', Some ''b'', Some ''c'']
   \<and> fst (len jobs (snd (get_times (length [Some ''a'', Some ''b'']) jobs False None
         (snd (put jobs [Some ''a'', Some ''b'', Some ''c''] empty_world)))))
       = Returns 1"
  using len_after_put_and_get [where q = jobs and w = "empty_world :: string world"
      and M = "[Some ''a'', Some ''b'', Some ''c'']" and ms = "[Some ''a'', Some ''b'']"
      and blk = False and tmo = None]
  by (simp add: eval_defs)

subsection \<open>Consuming\<close>

lemma get_kw_setdefault:
  "get_kw q (setdefault_block kw True) w
     = get q (case kw_block kw of None \<Rightarrow> True | Some b \<Rightarrow> b) (kw_timeout kw) w"
  by (cases "kw_block kw") (simp_all add: get_kw_def setdefault_block_def)

lemma consume_loop_None:
  "get_kw q kw w = (Returns None, w') \<Longrightarrow> consume_loop q kw w = ([], Returns (), w')"
  by (subst consume_loop.simps) simp

lemma consume_loop_Some:
  "get_kw q kw w = (Returns (Some m), w') \<Longrightarrow>
     consume_loop q kw w =
       (Some m # fst (consume_loop q kw w'), snd (consume_loop q kw w'))"
  by (subst consume_loop.simps) (simp add: case_prod_unfold Let_def)

lemma consume_loop_Raises:
  "get_kw q kw w = (Raises e, w') \<Longrightarrow> consume_loop q kw w = ([], ending (Raises e), w')"
  by (subst consume_loop.simps) simp

lemma consume_loop_Blocks:
  "get_kw q kw w = (Blocks, w') \<Longrightarrow> consume_loop q kw w = ([], Blocks, w')"
  by (subst consume_loop.simps) simp

lemma get_times_Suc_Returns:
  "get q blk tmo w = (Returns m, w') \<Longrightarrow>
     get_times (Suc n) q blk tmo w
       = (Returns m # fst (get_times n q blk tmo w'), snd (get_times n q blk tmo w'))"
  by (simp add: case_prod_unfold Let_def)

text \<open>
  When the calls return messages and then \<open>None\<close>, the generator yields these
  messages and returns.
\<close>

lemma consume_loop_stops:
  assumes "\<And>w. get_kw q kw w = get q blk tmo w"
    and "get_times (length ms) q blk tmo w = (map Returns ms, w1)"
    and "None \<notin> set ms"
    and "get q blk tmo w1 = (Returns None, w2)"
  shows "consume_loop q kw w = (ms, Returns (), w2)"
  using assms(2,3)
proof (induction ms arbitrary: w)
  case Nil
  with assms(1,4) show ?case by (simp add: consume_loop_None)
next
  case (Cons m ms)
  from Cons.prems(2) obtain v where m: "m = Some v" by (cases m) auto
  obtain r w' where g: "get q blk tmo w = (r, w')" by (cases "get q blk tmo w")
  with Cons.prems(1) have r: "r = Returns m"
    by (cases r) (simp_all split: prod.splits)
  with g Cons.prems(1) have "get_times (length ms) q blk tmo w' = (map Returns ms, w1)"
    by (simp split: prod.splits)
  with Cons.prems(2) have "consume_loop q kw w' = (ms, Returns (), w2)"
    by (intro Cons.IH) simp_all
  with g r m assms(1) show ?case
    by (simp add: consume_loop_Some)
qed

text \<open>
  The calls the generator makes are one more than the messages it yields: the calls
  before the last return what it yields, the last one returns no message.
\<close>

lemma consume_loop_calls:
  assumes "\<And>w. get_kw q kw w = get q blk tmo w"
  shows "\<exists>r. get_times (Suc (length (fst (consume_loop q kw w)))) q blk tmo w
              = (map Returns (fst (consume_loop q kw w)) @ [r], snd (snd (consume_loop q kw w)))
           \<and> (\<forall>m. r \<noteq> Returns (Some m))
           \<and> fst (snd (consume_loop q kw w)) = ending r"
  using assms
proof (induction q kw w rule: consume_loop.induct)
  case (1 q kw w)
  obtain r0 w' where g: "get q blk tmo w = (r0, w')" by (cases "get q blk tmo w")
  with "1.prems" have gk: "get_kw q kw w = (r0, w')" by simp
  show ?case
  proof (cases r0)
    case (Returns msg)
    show ?thesis
    proof (cases msg)
      case None
      with Returns g gk show ?thesis
        by (intro exI [of _ "Returns None"]) (simp add: consume_loop_None)
    next
      case (Some v)
      from "1.IH" [OF refl gk [symmetric] Returns _ "1.prems"] Some obtain r where
        t: "get_times (Suc (length (fst (consume_loop q kw w')))) q blk tmo w'
              = (map Returns (fst (consume_loop q kw w')) @ [r], snd (snd (consume_loop q kw w')))"
        and r: "\<forall>m. r \<noteq> Returns (Some m)" "fst (snd (consume_loop q kw w')) = ending r"
        by auto
      from g Returns Some have g': "get q blk tmo w = (Returns (Some v), w')" by simp
      from gk Returns Some have c: "consume_loop q kw w =
          (Some v # fst (consume_loop q kw w'), snd (consume_loop q kw w'))"
        by (simp add: consume_loop_Some)
      show ?thesis
        unfolding c using r
        by (intro exI [of _ r]) (simp add: get_times_Suc_Returns [OF g'] t del: get_times.simps)
    qed
  next
    case (Raises e)
    with gk have "consume_loop q kw w = ([], ending (Raises e), w')"
      by (intro consume_loop_Raises) simp
    with g Raises show ?thesis
      by (intro exI [of _ "Raises e"]) simp
  next
    case Blocks
    with g gk show ?thesis
      by (intro exI [of _ Blocks]) (simp add: consume_loop_Blocks)
  qed
qed

lemma consume_loop_yields_messages: "None \<notin> set (fst (consume_loop q kw w))"
proof (induction q kw w rule: consume_loop.induct)
  case (1 q kw w)
  obtain r0 w' where gk: "get_kw q kw w = (r0, w')" by (cases "get_kw q kw w")
  show ?case
  proof (cases r0)
    case (Returns msg)
    show ?thesis
    proof (cases msg)
      case None
      with Returns gk show ?thesis by (simp add: consume_loop_None)
    next
      case (Some v)
      with "1.IH" [OF refl gk [symmetric] Returns] Returns gk show ?thesis
        by (simp add: consume_loop_Some)
    qed
  next
    case (Raises e)
    with gk have "consume_loop q kw w = ([], ending (Raises e), w')"
      by (intro consume_loop_Raises) simp
    then show ?thesis by simp
  next
    case Blocks
    with gk show ?thesis by (simp add: consume_loop_Blocks)
  qed
qed

text \<open>
  C5: \<open>consume\<close> calls \<open>get\<close> with \<open>block=True\<close> when \<open>block\<close> is not among
  its keyword arguments, and with the given value otherwise. If the successive calls
  return messages other than \<open>None\<close> and then \<open>None\<close>, the generator yields
  exactly these messages and returns, in the world the last call left. In any case:
  no yielded message is \<open>None\<close>; the generator makes one call more than it yields;
  the calls before the last returned the yielded messages, one each and in order; the
  last call returned no message, and the generator returns if that call returned
  \<open>None\<close> or raised \<open>KeyboardInterrupt\<close>, raises what the call raised otherwise, and
  does not return if the call does not.
\<close>

theorem consume_until_None:
  assumes "blk = (case kw_block kw of None \<Rightarrow> True | Some b \<Rightarrow> b)"
    and "tmo = kw_timeout kw"
  shows "(\<forall>ms w1 w2.
            get_times (length ms) q blk tmo w = (map Returns ms, w1) \<and> None \<notin> set ms
            \<and> get q blk tmo w1 = (Returns None, w2)
            \<longrightarrow> consume q kw w = (ms, Returns (), w2))
   \<and> None \<notin> set (fst (consume q kw w))
   \<and> (\<exists>r. get_times (Suc (length (fst (consume q kw w)))) q blk tmo w
              = (map Returns (fst (consume q kw w)) @ [r], snd (snd (consume q kw w)))
         \<and> (\<forall>m. r \<noteq> Returns (Some m))
         \<and> fst (snd (consume q kw w)) = ending r)"
proof -
  have k: "get_kw q (setdefault_block kw True) w' = get q blk tmo w'" for w'
    by (simp add: get_kw_setdefault assms)
  show ?thesis
    unfolding consume_def
    using consume_loop_stops [OF k] consume_loop_yields_messages consume_loop_calls [OF k]
    by blast
qed

theorem consume_until_None_witness:
  "True = (case kw_block \<lparr>kw_block = None, kw_timeout = Some 1\<rparr> of None \<Rightarrow> True | Some b \<Rightarrow> b)
   \<and> Some 1 = kw_timeout \<lparr>kw_block = None, kw_timeout = Some 1\<rparr>
   \<and> get_times (length [Some ''a'', Some ''b'']) jobs True (Some 1)
        \<lparr>store = [''hotqueue:jobs'' \<mapsto> [''a'', ''b'']], trace = []\<rparr>
       = (map Returns [Some ''a'', Some ''b''],
          \<lparr>store = Map.empty,
           trace = [BLPOP ''hotqueue:jobs'' 1, Loads ''a'', BLPOP ''hotqueue:jobs'' 1, Loads ''b'']\<rparr>)
   \<and> None \<notin> set [Some ''a'', Some ''b'']
   \<and> get jobs True (Some 1)
        \<lparr>store = Map.empty,
         trace = [BLPOP ''hotqueue:jobs'' 1, Loads ''a'', BLPOP ''hotqueue:jobs'' 1, Loads ''b'']\<rparr>
       = (Returns None,
          \<lparr>store = Map.empty,
           trace = [BLPOP ''hotqueue:jobs'' 1, Loads ''a'', BLPOP ''hotqueue:jobs'' 1, Loads ''b'',
                    BLPOP ''hotqueue:jobs'' 1]\<rparr>)
   \<and> consume jobs \<lparr>kw_block = None, kw_timeout = Some 1\<rparr>
        \<lparr>store = [''hotqueue:jobs'' \<mapsto> [''a'', ''b'']], trace = []\<rparr>
       = ([Some ''a'', Some ''b''], Returns (),
          \<lparr>store = Map.empty,
           trace = [BLPOP ''hotqueue:jobs'' 1, Loads ''a'', BLPOP ''hotqueue:jobs'' 1, Loads ''b'',
                    BLPOP ''hotqueue:jobs'' 1]\<rparr>)"
proof -
  have b: "True = (case kw_block \<lparr>kw_block = None, kw_timeout = Some 1\<rparr> of None \<Rightarrow> True | Some b \<Rightarrow> b)"
    and t: "Some 1 = kw_timeout \<lparr>kw_block = None, kw_timeout = Some 1\<rparr>"
    by simp_all
  have g: "get_times (length [Some ''a'', Some ''b'']) jobs True (Some 1)
        \<lparr>store = [''hotqueue:jobs'' \<mapsto> [''a'', ''b'']], trace = []\<rparr>
       = (map Returns [Some ''a'', Some ''b''],
          \<lparr>store = Map.empty,
           trace = [BLPOP ''hotqueue:jobs'' 1, Loads ''a'', BLPOP ''hotqueue:jobs'' 1, Loads ''b'']\<rparr>)"
    by (simp add: eval_defs)
  have n: "None \<notin> set [Some ''a'', Some ''b'']"
    by simp
  have l: "get jobs True (Some 1)
        \<lparr>store = Map.empty,
         trace = [BLPOP ''hotqueue:jobs'' 1, Loads ''a'', BLPOP ''hotqueue:jobs'' 1, Loads ''b'']\<rparr>
       = (Returns None,
          \<lparr>store = Map.empty,
           trace = [BLPOP ''hotqueue:jobs'' 1, Loads ''a'', BLPOP ''hotqueue:jobs'' 1, Loads ''b'',
                    BLPOP ''hotqueue:jobs'' 1]\<rparr>)"
    by (simp add: eval_defs)
  from consume_until_None [OF b t, of jobs
      "\<lparr>store = [''hotqueue:jobs'' \<mapsto> [''a'', ''b'']], trace = []\<rparr>"] g n l
  have "consume jobs \<lparr>kw_block = None, kw_timeout = Some 1\<rparr>
        \<lparr>store = [''hotqueue:jobs'' \<mapsto> [''a'', ''b'']], trace = []\<rparr>
       = ([Some ''a'', Some ''b''], Returns (),
          \<lparr>store = Map.empty,
           trace = [BLPOP ''hotqueue:jobs'' 1, Loads ''a'', BLPOP ''hotqueue:jobs'' 1, Loads ''b'',
                    BLPOP ''hotqueue:jobs'' 1]\<rparr>)"
    by blast
  with b t g n l show ?thesis
    by blast
qed

subsection \<open>The key\<close>

lemma keys_used_Nil [simp]: "keys_used [] = {}"
  by (simp add: keys_used_def)

lemma keys_used_append [simp]: "keys_used (es @ es') = keys_used es \<union> keys_used es'"
  by (auto simp: keys_used_def in_these_eq)

lemma keys_used_Cons [simp]:
  "keys_used (e # es) = (case event_key e of None \<Rightarrow> {} | Some k \<Rightarrow> {k}) \<union> keys_used es"
  by (auto simp: keys_used_def in_these_eq split: option.splits)

lemma event_key_pop_call [simp]: "event_key (pop_call c blk tmo k) = Some k"
  by (cases c) (simp_all add: pop_call_def)

lemma new_calls_append: "trace w' = trace w @ es \<Longrightarrow> new_calls w w' = es"
  by (simp add: new_calls_def)

lemma get_trace:
  "\<exists>es. trace (snd (get q blk tmo w)) = trace w @ es \<and> keys_used es \<subseteq> {key q}"
proof (cases rule: get_cases [where w = w and q = q and blk = blk and tmo = tmo])
  case empty
  then show ?thesis by (simp add: get_empty)
next
  case negative
  then show ?thesis by (simp add: get_negative)
next
  case (pop x rest)
  show ?thesis by (simp add: get_nonempty [OF pop] record_call_def)
qed

lemma put_trace:
  "\<exists>es. trace (snd (put q ms w)) = trace w @ es \<and> keys_used es \<subseteq> {key q}"
proof (induction ms arbitrary: w)
  case Nil
  show ?case by simp
next
  case (Cons m ms)
  show ?case
  proof (cases "dumps (serializer q) m")
    case (Inl e)
    then show ?thesis by simp
  next
    case (Inr b)
    from Cons.IH [of "snd (redis_rpush (key q) b (record_call (Dumps m) w))"] obtain es where
      "trace (snd (put q ms (snd (redis_rpush (key q) b (record_call (Dumps m) w)))))
         = (trace w @ [Dumps m, RPUSH (key q) b]) @ es" "keys_used es \<subseteq> {key q}"
      by auto
    with Inr show ?thesis
      by (intro exI [of _ "[Dumps m, RPUSH (key q) b] @ es"]) simp
  qed
qed

lemma put_head_trace:
  "\<exists>es. trace (snd (put_head q ms w)) = trace w @ es \<and> keys_used es \<subseteq> {key q}"
proof (induction ms arbitrary: w)
  case Nil
  show ?case by simp
next
  case (Cons m ms)
  show ?case
  proof (cases "dumps (serializer q) m")
    case (Inl e)
    then show ?thesis by simp
  next
    case (Inr b)
    from Cons.IH [of "snd (redis_lpush (key q) b (record_call (Dumps m) w))"] obtain es where
      "trace (snd (put_head q ms (snd (redis_lpush (key q) b (record_call (Dumps m) w)))))
         = (trace w @ [Dumps m, LPUSH (key q) b]) @ es" "keys_used es \<subseteq> {key q}"
      by auto
    with Inr show ?thesis
      by (intro exI [of _ "[Dumps m, LPUSH (key q) b] @ es"]) simp
  qed
qed

lemma consume_loop_trace:
  "\<exists>es. trace (snd (snd (consume_loop q kw w))) = trace w @ es \<and> keys_used es \<subseteq> {key q}"
proof (induction q kw w rule: consume_loop.induct)
  case (1 q kw w)
  obtain r0 w' where gk: "get_kw q kw w = (r0, w')" by (cases "get_kw q kw w")
  have "\<exists>es. trace (snd (get_kw q kw w)) = trace w @ es \<and> keys_used es \<subseteq> {key q}"
    unfolding get_kw_def by (rule get_trace)
  with gk obtain es where
    es: "trace w' = trace w @ es" "keys_used es \<subseteq> {key q}"
    by auto
  show ?case
  proof (cases r0)
    case (Returns msg)
    show ?thesis
    proof (cases msg)
      case None
      with Returns gk es show ?thesis by (simp add: consume_loop_None)
    next
      case (Some v)
      from "1.IH" [OF refl gk [symmetric] Returns] Some obtain es' where
        "trace (snd (snd (consume_loop q kw w'))) = trace w' @ es'" "keys_used es' \<subseteq> {key q}"
        by auto
      with Returns Some gk es show ?thesis
        by (intro exI [of _ "es @ es'"]) (simp add: consume_loop_Some)
    qed
  next
    case (Raises e)
    with gk have "consume_loop q kw w = ([], ending (Raises e), w')"
      by (intro consume_loop_Raises) simp
    with es show ?thesis by simp
  next
    case Blocks
    with gk es show ?thesis by (simp add: consume_loop_Blocks)
  qed
qed

text \<open>
  C4: the key is \<open>hotqueue\<close>, a colon and the name; two instances with the same name
  have the same key, whatever their class and serializer; and every client call that \<open>len\<close>, \<open>clear\<close>, \<open>get\<close>,
  \<open>put\<close>, \<open>put_head\<close> and \<open>consume\<close> make names this key and no other.
\<close>

theorem key_is_prefix_colon_name:
  "key_for_name n = ''hotqueue'' @ '':'' @ n
   \<and> key q = ''hotqueue'' @ '':'' @ name q
   \<and> (name q = name q' \<longrightarrow> key q = key q')
   \<and> key (init c pickle n ser) = key (init c' pickle' n ser')
   \<and> keys_used (new_calls w (snd (len q w))) \<subseteq> {''hotqueue'' @ '':'' @ name q}
   \<and> keys_used (new_calls w (snd (clear q w))) \<subseteq> {''hotqueue'' @ '':'' @ name q}
   \<and> keys_used (new_calls w (snd (get q blk tmo w))) \<subseteq> {''hotqueue'' @ '':'' @ name q}
   \<and> keys_used (new_calls w (snd (put q ms w))) \<subseteq> {''hotqueue'' @ '':'' @ name q}
   \<and> keys_used (new_calls w (snd (put_head q ms w))) \<subseteq> {''hotqueue'' @ '':'' @ name q}
   \<and> keys_used (new_calls w (snd (snd (consume q kw w)))) \<subseteq> {''hotqueue'' @ '':'' @ name q}"
proof -
  have k: "key q = ''hotqueue'' @ '':'' @ name q"
    by (simp add: key_def key_for_name_def)
  have 1: "keys_used (new_calls w (snd (len q w))) \<subseteq> {key q}"
    by (simp add: len_def redis_llen_def)
  have 2: "keys_used (new_calls w (snd (clear q w))) \<subseteq> {key q}"
    by (simp add: clear_def redis_delete_def new_calls_def record_call_def)
  have 3: "keys_used (new_calls w (snd (get q blk tmo w))) \<subseteq> {key q}"
    using get_trace [of q blk tmo w] by (auto simp: new_calls_append)
  have 4: "keys_used (new_calls w (snd (put q ms w))) \<subseteq> {key q}"
    using put_trace [of q ms w] by (auto simp: new_calls_append)
  have 5: "keys_used (new_calls w (snd (put_head q ms w))) \<subseteq> {key q}"
    using put_head_trace [of q ms w] by (auto simp: new_calls_append)
  have 6: "keys_used (new_calls w (snd (snd (consume q kw w)))) \<subseteq> {key q}"
    using consume_loop_trace [of q "setdefault_block kw True" w]
    by (auto simp: new_calls_append consume_def)
  have 7: "name q = name q' \<longrightarrow> key q = key q'"
    by (simp add: key_def)
  have 8: "key_for_name n = ''hotqueue'' @ '':'' @ n"
    by (simp add: key_for_name_def)
  have 9: "key (init c pickle n ser) = key (init c' pickle' n ser')"
    by (simp add: key_def init_def)
  from 1 2 3 4 5 6 7 8 9 show ?thesis
    unfolding k [symmetric] by blast
qed

theorem key_is_prefix_colon_name_witness:
  "name jobs = name jobs_stack \<and> key jobs = key jobs_stack \<and> key jobs = ''hotqueue:jobs''
   \<and> keys_used (new_calls empty_world (snd (put jobs [Some ''a''] empty_world))) \<subseteq> {''hotqueue:jobs''}"
  using key_is_prefix_colon_name [where q = jobs and q' = jobs_stack and w = "empty_world :: string world"
      and ms = "[Some ''a'']" and n = "''jobs''" and blk = False and tmo = None
      and kw = "\<lparr>kw_block = None, kw_timeout = None\<rparr>"
      and c = HotQueue and c' = HotStack and pickle = text_serializer and pickle' = text_serializer
      and ser = None and ser' = None]
  by (simp add: jobs_def jobs_stack_def key_def key_for_name_def)

end
